theory Spec2Isabelle
  imports Complex_Main
begin

section \<open>The circular countdown timer (component CircularTimer)\<close>

text \<open>
  The component is embedded as follows.  A JavaScript \<open>number\<close> that holds a
  coordinate, an angle or a timestamp is a \<open>real\<close> (exact arithmetic; rounding of
  IEEE doubles is not modelled).  \<open>timeLeft\<close> only ever receives \<open>60\<close> or
  \<open>Math.max(60 - Math.floor(...), 0)\<close>, so it is an \<open>int\<close>.  Counters, ring numbers
  and sequence indices are natural numbers.  React state and refs are the fields of
  one record, together with the host's queue of requested animation frames; every
  handler is a function from state to state.
\<close>

subsection \<open>Geometry constants\<close>

definition CIRCLE_SIZE :: real where
  "CIRCLE_SIZE = 8"

definition RADIUS :: real where
  "RADIUS = 96"

definition PADDING :: real where
  "PADDING = CIRCLE_SIZE * 2"

definition SIZE :: real where
  "SIZE = (RADIUS + PADDING) * 2"

definition CENTER :: real where
  "CENTER = SIZE / 2"

definition NUM_RINGS :: nat where
  "NUM_RINGS = 5"

text \<open>\<open>SPACING\<close> is \<open>RADIUS / NUM_RINGS\<close>; the ring count is a parameter here so that
  the layout can be studied for every ring count.\<close>

definition SPACING :: "nat \<Rightarrow> real" where
  "SPACING N = RADIUS / real N"

subsection \<open>Dots\<close>

text \<open>Interface \<open>CirclePosition\<close>.  The fields \<open>x\<close> and \<open>y\<close> of the source are
  called \<open>x_coord\<close> and \<open>y_coord\<close>.\<close>

record CirclePosition =
  x_coord :: real
  y_coord :: real
  ring :: nat
  sequenceIndex :: nat
  anglePosition :: nat
  totalInRing :: nat

text \<open>The number of dots of one ring and the inner loop of \<open>generateCirclePositions\<close>
  (the dots of ring \<open>rng\<close>, the first of them with sequence index \<open>seq0\<close>).  When
  \<open>numCircles\<close> is \<open>0\<close> the source's angle step is infinite and the loop body never
  runs; here the step is then \<open>0\<close> and the list is empty.\<close>

definition numCircles :: "nat \<Rightarrow> nat \<Rightarrow> nat" where
  "numCircles N rng =
     (let ringRadius = real rng * SPACING N;
          circumference = 2 * pi * ringRadius
      in nat \<lfloor>circumference / (CIRCLE_SIZE * 2)\<rfloor>)"

definition ringCircle :: "nat \<Rightarrow> nat \<Rightarrow> nat \<Rightarrow> nat \<Rightarrow> CirclePosition" where
  "ringCircle N rng seq0 i =
     (let ringRadius = real rng * SPACING N;
          ringAngleStep = (2 * pi) / real (numCircles N rng);
          angle = real i * ringAngleStep
      in \<lparr> x_coord = CENTER + ringRadius * cos angle,
           y_coord = CENTER + ringRadius * sin angle,
           ring = rng,
           sequenceIndex = seq0 + i,
           anglePosition = i,
           totalInRing = numCircles N rng \<rparr>)"

definition ringCircles :: "nat \<Rightarrow> nat \<Rightarrow> nat \<Rightarrow> CirclePosition list" where
  "ringCircles N rng seq0 = map (ringCircle N rng seq0) [0..<numCircles N rng]"

definition centerCircle :: "nat \<Rightarrow> CirclePosition" where
  "centerCircle seq =
     \<lparr> x_coord = CENTER, y_coord = CENTER, ring = 0,
       sequenceIndex = seq, anglePosition = 0, totalInRing = 1 \<rparr>"

text \<open>The outer loop, from the ring given down to ring 1, then the centre dot.\<close>

fun generateRings :: "nat \<Rightarrow> nat \<Rightarrow> nat \<Rightarrow> CirclePosition list" where
  "generateRings N 0 seq = [centerCircle seq]"
| "generateRings N (Suc r) seq =
     ringCircles N (Suc r) seq @ generateRings N r (seq + numCircles N (Suc r))"

definition generateCirclePositions :: "CirclePosition list" where
  "generateCirclePositions = generateRings NUM_RINGS NUM_RINGS 0"

text \<open>Euclidean distance between the centres of two dots.\<close>

definition centerDistance :: "CirclePosition \<Rightarrow> CirclePosition \<Rightarrow> real" where
  "centerDistance a b = sqrt ((x_coord a - x_coord b)\<^sup>2 + (y_coord a - y_coord b)\<^sup>2)"

subsection \<open>Timer state\<close>

text \<open>
  \<open>pending\<close> is the host's list of requested animation frames: the handle, and the
  value of \<open>isRunning\<close> that the closure \<open>updateTimer\<close> of that request captured.
  \<open>nextHandle\<close> is the handle the host gives to the next request.
\<close>

record timer =
  timeLeft :: int
  isRunning :: bool
  hasStarted :: bool
  circlePositions :: "CirclePosition list"
  isClient :: bool
  animationFrameRef :: "nat option"
  startTimeRef :: "real option"
  pending :: "(nat \<times> bool) list"
  nextHandle :: nat

text \<open>\<open>animationFrameRef.current = requestAnimationFrame(updateTimer)\<close>: both call
  sites store the handle in the ref.\<close>

definition requestAnimationFrame :: "bool \<Rightarrow> timer \<Rightarrow> timer" where
  "requestAnimationFrame captured s =
     s\<lparr> animationFrameRef := Some (nextHandle s),
        pending := pending s @ [(nextHandle s, captured)],
        nextHandle := Suc (nextHandle s) \<rparr>"

definition cancelAnimationFrame :: "nat \<Rightarrow> timer \<Rightarrow> timer" where
  "cancelAnimationFrame h s = s\<lparr> pending := filter (\<lambda>p. fst p \<noteq> h) (pending s) \<rparr>"

text \<open>\<open>if (animationFrameRef.current) cancelAnimationFrame(animationFrameRef.current)\<close>;
  \<open>null\<close> and \<open>0\<close> are falsy.\<close>

definition cancelCurrent :: "timer \<Rightarrow> timer" where
  "cancelCurrent s =
     (case animationFrameRef s of
        None \<Rightarrow> s
      | Some h \<Rightarrow> if h \<noteq> 0 then cancelAnimationFrame h s else s)"

text \<open>The body of \<open>updateTimer\<close>; \<open>captured\<close> is the \<open>isRunning\<close> of its closure.
  \<open>!startTimeRef.current\<close> holds for \<open>null\<close> and for \<open>0\<close>.  The difference of the two
  timestamps is exact, where the source subtracts doubles: the elapsed seconds
  can differ for fractional timestamps whose difference is within rounding of a
  multiple of 1000.\<close>

definition updateTimer :: "bool \<Rightarrow> real \<Rightarrow> timer \<Rightarrow> timer" where
  "updateTimer captured timestamp s =
     (let start = (case startTimeRef s of
                     None \<Rightarrow> timestamp
                   | Some st \<Rightarrow> if st = 0 then timestamp else st);
          s1 = s\<lparr> startTimeRef := Some start \<rparr>;
          elapsedTime = \<lfloor>(timestamp - start) / 1000\<rfloor>;
          newTimeLeft = max (60 - elapsedTime) 0;
          s2 = s1\<lparr> timeLeft := newTimeLeft \<rparr>
      in if newTimeLeft > 0 \<and> captured then requestAnimationFrame captured s2
         else if newTimeLeft = 0 then s2\<lparr> isRunning := False, startTimeRef := None \<rparr>
         else s2)"

text \<open>The effect with dependencies \<open>[isRunning, timeLeft]\<close>: its body, and the
  re-run (cleanup of the previous effect, then the body) that React performs after
  a handler when one of the two dependencies changed.\<close>

definition effectBody :: "timer \<Rightarrow> timer" where
  "effectBody s =
     (if isRunning s \<and> timeLeft s > 0 then requestAnimationFrame (isRunning s) s else s)"

definition commit :: "timer \<Rightarrow> timer \<Rightarrow> timer" where
  "commit old s =
     (if isRunning s \<noteq> isRunning old \<or> timeLeft s \<noteq> timeLeft old
      then effectBody (cancelCurrent s) else s)"

text \<open>The handlers \<open>reset\<close> and \<open>toggleTimer\<close>.\<close>

definition reset :: "timer \<Rightarrow> timer" where
  "reset s =
     (cancelCurrent s)\<lparr> startTimeRef := None, timeLeft := 60,
                        isRunning := False, hasStarted := False \<rparr>"

definition toggleTimer :: "timer \<Rightarrow> timer" where
  "toggleTimer s =
     (let s1 = (if \<not> hasStarted s then s\<lparr> hasStarted := True \<rparr> else s);
          s2 = (if \<not> isRunning s \<and> timeLeft s = 0
                then s1\<lparr> timeLeft := 60, startTimeRef := None \<rparr> else s1)
      in s2\<lparr> isRunning := \<not> isRunning s2 \<rparr>)"

text \<open>What can happen to the mounted component: a click on either button, or the
  host running the oldest requested frame with a timestamp.\<close>

datatype event = Toggle | Reset | Frame real

fun step :: "event \<Rightarrow> timer \<Rightarrow> timer" where
  "step Toggle s = commit s (toggleTimer s)"
| "step Reset s = commit s (reset s)"
| "step (Frame timestamp) s =
     (case pending s of
        [] \<Rightarrow> s
      | (h, captured) # rest \<Rightarrow> commit s (updateTimer captured timestamp (s\<lparr> pending := rest \<rparr>)))"

fun run :: "event list \<Rightarrow> timer \<Rightarrow> timer" where
  "run [] s = s"
| "run (e # es) s = run es (step e s)"

text \<open>The state after mounting: the \<open>useState\<close> initial values, the layout
  generated by the mount effect, nothing requested yet.\<close>

definition init :: timer where
  "init = \<lparr> timeLeft = 60, isRunning = False, hasStarted = False,
            circlePositions = generateCirclePositions, isClient = True,
            animationFrameRef = None, startTimeRef = None,
            pending = [], nextHandle = 1 \<rparr>"

fun timestamps :: "event list \<Rightarrow> real list" where
  "timestamps [] = []"
| "timestamps (Frame t # es) = t # timestamps es"
| "timestamps (e # es) = timestamps es"

subsection \<open>Colour of a dot\<close>

text \<open>\<open>totalCircles\<close> is \<open>circlePositions.length - 1\<close>.  \<open>getCircleColor\<close> closes
  over \<open>hasStarted\<close> and \<open>totalCircles\<close>; they are its first two arguments here.
  \<open>percentage\<close> and the product under \<open>Math.ceil\<close> are exact reals: the ceiling is that
  of the source's doubles for the 111 dots of the component's layout, and can
  differ by one from it when \<open>totalCircles\<close> is a multiple of 59.\<close>

definition totalCircles :: "CirclePosition list \<Rightarrow> int" where
  "totalCircles ps = int (length ps) - 1"

definition percentage :: "int \<Rightarrow> real" where
  "percentage currentTime = (of_int currentTime - 1) / 59"

definition activeCircleCount :: "int \<Rightarrow> int \<Rightarrow> int" where
  "activeCircleCount tot currentTime = \<lceil>percentage currentTime * of_int tot\<rceil>"

definition getCircleColor :: "bool \<Rightarrow> int \<Rightarrow> CirclePosition \<Rightarrow> int \<Rightarrow> string" where
  "getCircleColor started tot circle currentTime =
     (if \<not> started then ''rgb(255, 255, 255)''
      else if ring circle = 0
        then (if currentTime = 0 then ''#1e1e1e'' else ''rgb(255, 255, 255)'')
      else if currentTime \<le> 1 then ''#1e1e1e''
      else if int (sequenceIndex circle) > tot - activeCircleCount tot currentTime
        then ''#1e1e1e'' else ''rgb(255, 255, 255)'')"

text \<open>\<open>isActive\<close> as computed in the render of each dot.\<close>

definition isActive :: "bool \<Rightarrow> int \<Rightarrow> CirclePosition \<Rightarrow> int \<Rightarrow> bool" where
  "isActive started tot circle currentTime \<longleftrightarrow>
     getCircleColor started tot circle currentTime = ''rgb(255, 255, 255)''"

text \<open>The non-centre dots of a layout that are drawn active.\<close>

definition activeDots :: "bool \<Rightarrow> CirclePosition list \<Rightarrow> int \<Rightarrow> CirclePosition list" where
  "activeDots started ps currentTime =
     filter (\<lambda>c. ring c \<noteq> 0 \<and> isActive started (totalCircles ps) c currentTime) ps"

subsection \<open>Scheduling invariant\<close>

text \<open>The handle counter is not \<open>0\<close> (a handle is truthy), and the queue is empty or
  is the single request named by \<open>animationFrameRef\<close>, requested by a closure with
  \<open>isRunning = true\<close>.\<close>

definition sched_ok :: "timer \<Rightarrow> bool" where
  "sched_ok s \<longleftrightarrow>
     nextHandle s \<noteq> 0 \<and>
     (case pending s of
        [] \<Rightarrow> True
      | p # rest \<Rightarrow> rest = [] \<and> snd p \<and> fst p \<noteq> 0 \<and> animationFrameRef s = Some (fst p))"

text \<open>The reference start instant, when set, is not later than \<open>lo\<close>.\<close>

definition clock_ok :: "real \<Rightarrow> timer \<Rightarrow> bool" where
  "clock_ok lo s \<longleftrightarrow> (case startTimeRef s of None \<Rightarrow> True | Some st \<Rightarrow> st \<le> lo)"

section \<open>The frame queue holds at most the request stored in the ref\<close>

text \<open>In every state the component can reach, the host's queue is empty or holds
  exactly the request whose handle is in \<open>animationFrameRef\<close>, and that request's
  closure captured \<open>isRunning = true\<close>.\<close>

lemmas timer_defs = requestAnimationFrame_def cancelAnimationFrame_def cancelCurrent_def
  updateTimer_def effectBody_def commit_def reset_def toggleTimer_def

lemma sched_ok_init: "sched_ok init"
  by (simp add: sched_ok_def init_def)

lemma sched_ok_cancelCurrent:
  "sched_ok s \<Longrightarrow> pending (cancelCurrent s) = [] \<and> nextHandle (cancelCurrent s) = nextHandle s"
  by (auto simp: sched_ok_def cancelCurrent_def cancelAnimationFrame_def split: list.splits option.splits)

lemma sched_ok_effectBody:
  "nextHandle s \<noteq> 0 \<Longrightarrow> pending s = [] \<Longrightarrow> sched_ok (effectBody s)"
  by (auto simp: sched_ok_def effectBody_def requestAnimationFrame_def)

lemma cancelCurrent_fields [simp]:
  "timeLeft (cancelCurrent s) = timeLeft s"
  "isRunning (cancelCurrent s) = isRunning s"
  "hasStarted (cancelCurrent s) = hasStarted s"
  "startTimeRef (cancelCurrent s) = startTimeRef s"
  "circlePositions (cancelCurrent s) = circlePositions s"
  "isClient (cancelCurrent s) = isClient s"
  "animationFrameRef (cancelCurrent s) = animationFrameRef s"
  "nextHandle (cancelCurrent s) = nextHandle s"
  by (simp_all add: cancelCurrent_def cancelAnimationFrame_def split: option.splits)

lemma effectBody_fields [simp]:
  "timeLeft (effectBody s) = timeLeft s"
  "isRunning (effectBody s) = isRunning s"
  "hasStarted (effectBody s) = hasStarted s"
  "startTimeRef (effectBody s) = startTimeRef s"
  "circlePositions (effectBody s) = circlePositions s"
  "isClient (effectBody s) = isClient s"
  by (simp_all add: effectBody_def requestAnimationFrame_def)

lemma commit_fields [simp]:
  "timeLeft (commit old s) = timeLeft s"
  "isRunning (commit old s) = isRunning s"
  "hasStarted (commit old s) = hasStarted s"
  "startTimeRef (commit old s) = startTimeRef s"
  "circlePositions (commit old s) = circlePositions s"
  "isClient (commit old s) = isClient s"
  by (simp_all add: commit_def)

lemma sched_ok_commit:
  "sched_ok s \<Longrightarrow> sched_ok (commit old s)"
  unfolding commit_def
  using sched_ok_cancelCurrent [of s] sched_ok_effectBody [of "cancelCurrent s"]
  by (auto simp: sched_ok_def)

lemma sched_ok_cong:
  "pending t = pending s \<Longrightarrow> nextHandle t = nextHandle s \<Longrightarrow>
   animationFrameRef t = animationFrameRef s \<Longrightarrow> sched_ok t = sched_ok s"
  by (simp add: sched_ok_def split: list.splits)

lemma toggleTimer_sched_fields [simp]:
  "pending (toggleTimer s) = pending s"
  "nextHandle (toggleTimer s) = nextHandle s"
  "animationFrameRef (toggleTimer s) = animationFrameRef s"
  by (simp_all add: toggleTimer_def Let_def)

lemma sched_ok_toggleTimer: "sched_ok s \<Longrightarrow> sched_ok (toggleTimer s)"
  using sched_ok_cong [of "toggleTimer s" s] by simp

lemma sched_ok_reset: "sched_ok s \<Longrightarrow> sched_ok (reset s)"
  using sched_ok_cancelCurrent [of s]
  by (simp add: sched_ok_def reset_def)

lemma sched_ok_updateTimer:
  "nextHandle s \<noteq> 0 \<Longrightarrow> pending s = [] \<Longrightarrow> captured \<Longrightarrow> sched_ok (updateTimer captured timestamp s)"
  by (simp add: sched_ok_def updateTimer_def requestAnimationFrame_def Let_def)

lemma sched_ok_step: "sched_ok s \<Longrightarrow> sched_ok (step e s)"
proof (cases e)
  case Toggle
  assume "sched_ok s"
  then show ?thesis using Toggle by (simp add: sched_ok_commit sched_ok_toggleTimer)
next
  case Reset
  assume "sched_ok s"
  then show ?thesis using Reset by (simp add: sched_ok_commit sched_ok_reset)
next
  case (Frame ts)
  assume ok: "sched_ok s"
  show ?thesis
  proof (cases "pending s")
    case Nil
    then show ?thesis using ok Frame by simp
  next
    case (Cons p rest)
    obtain h c where p: "p = (h, c)" by (cases p)
    from ok Cons p have c: "c" and r: "rest = []" and n: "nextHandle s \<noteq> 0"
      by (simp_all add: sched_ok_def)
    have "sched_ok (updateTimer c ts (s\<lparr>pending := rest\<rparr>))"
      using sched_ok_updateTimer [of "s\<lparr>pending := rest\<rparr>" c ts] c r n by simp
    then show ?thesis using Frame Cons p by (simp add: sched_ok_commit)
  qed
qed

lemma sched_ok_run: "sched_ok s \<Longrightarrow> sched_ok (run evs s)"
  by (induction evs arbitrary: s) (simp_all add: sched_ok_step)

lemma reset_fields:
  "timeLeft (reset s) = 60" "\<not> isRunning (reset s)" "\<not> hasStarted (reset s)" "startTimeRef (reset s) = None"
  by (simp_all add: reset_def)

lemma cancelCurrent_idle: "pending s = [] \<Longrightarrow> cancelCurrent s = s"
  by (cases s) (simp add: cancelCurrent_def cancelAnimationFrame_def split: option.splits)

lemma cancelCurrent_eq: "sched_ok s \<Longrightarrow> cancelCurrent s = s\<lparr>pending := []\<rparr>"
  by (cases s) (auto simp: sched_ok_def cancelCurrent_def cancelAnimationFrame_def
                  split: option.splits list.splits)

lemma step_Reset_eq:
  assumes "sched_ok s"
  shows "step Reset s = s\<lparr> timeLeft := 60, isRunning := False, hasStarted := False,
                           startTimeRef := None, pending := [] \<rparr>"
proof -
  have r: "reset s = s\<lparr> timeLeft := 60, isRunning := False, hasStarted := False,
                           startTimeRef := None, pending := [] \<rparr>"
    by (simp add: reset_def cancelCurrent_eq [OF assms])
  have "commit s (reset s) = reset s"
    by (simp add: commit_def effectBody_def reset_fields cancelCurrent_idle r)
  then show ?thesis by (simp add: r)
qed

section \<open>Reset\<close>

text \<open>
  C7.  \<open>reset\<close> sets \<open>timeLeft = 60\<close>, \<open>isRunning = false\<close>, \<open>hasStarted = false\<close>
  and clears the reference start instant, whatever the state was.  In every state
  reached from the mounted component by any sequence of clicks and frames, a click
  on reset changes exactly these four fields and empties the queue of requested
  frames (the pending step is cancelled); a second reset changes nothing more.
\<close>

theorem reset_any_state:
  "timeLeft (reset s) = 60 \<and> \<not> isRunning (reset s) \<and> \<not> hasStarted (reset s) \<and>
   startTimeRef (reset s) = None \<and>
   step Reset (run evs init) =
     (run evs init)\<lparr> timeLeft := 60, isRunning := False, hasStarted := False,
                      startTimeRef := None, pending := [] \<rparr> \<and>
   step Reset (step Reset (run evs init)) = step Reset (run evs init)"
proof -
  have ok: "sched_ok (run evs init)" by (simp add: sched_ok_run sched_ok_init)
  have ok': "sched_ok (step Reset (run evs init))" by (rule sched_ok_step [OF ok])
  have a: "step Reset (run evs init) =
     (run evs init)\<lparr> timeLeft := 60, isRunning := False, hasStarted := False,
                      startTimeRef := None, pending := [] \<rparr>"
    by (rule step_Reset_eq [OF ok])
  have b: "step Reset (step Reset (run evs init)) = step Reset (run evs init)"
    by (subst step_Reset_eq [OF ok']) (simp add: a del: step.simps)
  show ?thesis
    using a b by (simp add: reset_fields del: step.simps)
qed

section \<open>The range of \<open>timeLeft\<close>\<close>

lemma toggleTimer_fields:
  "timeLeft (toggleTimer s) = (if \<not> isRunning s \<and> timeLeft s = 0 then 60 else timeLeft s)"
  "isRunning (toggleTimer s) = (\<not> isRunning s)"
  "hasStarted (toggleTimer s)"
  "startTimeRef (toggleTimer s) = (if \<not> isRunning s \<and> timeLeft s = 0 then None else startTimeRef s)"
  by (simp_all add: toggleTimer_def Let_def)

lemma updateTimer_timeLeft:
  "timeLeft (updateTimer c ts s) =
     max (60 - \<lfloor>(ts - (case startTimeRef s of None \<Rightarrow> ts | Some st \<Rightarrow> if st = 0 then ts else st)) / 1000\<rfloor>) 0"
  by (simp add: updateTimer_def Let_def requestAnimationFrame_def)

lemma updateTimer_nonneg: "0 \<le> timeLeft (updateTimer c ts s)"
  by (simp add: updateTimer_timeLeft)

lemma updateTimer_stopped:
  "timeLeft (updateTimer c ts s) = 0 \<Longrightarrow> \<not> isRunning (updateTimer c ts s)"
  by (simp add: updateTimer_def Let_def requestAnimationFrame_def split: if_splits)

lemma updateTimer_upper:
  assumes "clock_ok lo s" and "lo \<le> ts"
  shows "timeLeft (updateTimer c ts s) \<le> 60 \<and> clock_ok ts (updateTimer c ts s)"
proof -
  define start where "start = (case startTimeRef s of None \<Rightarrow> ts | Some st \<Rightarrow> if st = 0 then ts else st)"
  have le: "start \<le> ts"
    using assms by (auto simp: start_def clock_ok_def split: option.splits)
  then have "0 \<le> \<lfloor>(ts - start) / 1000\<rfloor>" by simp
  then have a: "timeLeft (updateTimer c ts s) \<le> 60"
    unfolding updateTimer_timeLeft start_def [symmetric] by simp
  have b: "clock_ok ts (updateTimer c ts s)"
    using le unfolding start_def
    by (simp add: updateTimer_def Let_def requestAnimationFrame_def clock_ok_def)
  show ?thesis using a b by simp
qed

lemma step_nonneg: "0 \<le> timeLeft s \<Longrightarrow> 0 \<le> timeLeft (step e s)"
  by (cases e) (simp_all add: toggleTimer_fields reset_fields updateTimer_nonneg split: list.splits)

lemma step_stopped:
  assumes "timeLeft s = 0 \<longrightarrow> \<not> isRunning s"
  shows "timeLeft (step e s) = 0 \<longrightarrow> \<not> isRunning (step e s)"
proof (cases e)
  case Toggle
  then show ?thesis using assms by (auto simp: toggleTimer_fields)
next
  case Reset
  then show ?thesis by (simp add: reset_fields)
next
  case (Frame ts)
  then show ?thesis using assms updateTimer_stopped
    by (auto split: list.splits)
qed

lemma clock_ok_mono: "clock_ok lo s \<Longrightarrow> lo \<le> hi \<Longrightarrow> clock_ok hi s"
  by (auto simp: clock_ok_def split: option.splits)

lemma clock_ok_cong: "startTimeRef t = startTimeRef s \<Longrightarrow> clock_ok lo t = clock_ok lo s"
  by (simp add: clock_ok_def)

lemma step_upper_click:
  assumes "timeLeft s \<le> 60" and "clock_ok lo s" and "e = Toggle \<or> e = Reset"
  shows "timeLeft (step e s) \<le> 60 \<and> clock_ok lo (step e s)"
  using assms by (auto simp: toggleTimer_fields reset_fields clock_ok_def)

lemma step_upper_frame:
  assumes "timeLeft s \<le> 60" and "clock_ok lo s" and "lo \<le> ts"
  shows "timeLeft (step (Frame ts) s) \<le> 60 \<and> clock_ok ts (step (Frame ts) s)"
proof (cases "pending s")
  case Nil
  then show ?thesis using assms clock_ok_mono by simp
next
  case (Cons p rest)
  obtain h c where p: "p = (h, c)" by (cases p)
  have "clock_ok lo (s\<lparr>pending := rest\<rparr>)" using assms(2) by (simp add: clock_ok_def)
  from updateTimer_upper [OF this assms(3), of c]
  show ?thesis using Cons p by (simp add: clock_ok_def)
qed

lemma run_nonneg: "0 \<le> timeLeft s \<Longrightarrow> 0 \<le> timeLeft (run evs s)"
  by (induction evs arbitrary: s) (simp_all add: step_nonneg del: step.simps)

lemma run_stopped:
  "(timeLeft s = 0 \<longrightarrow> \<not> isRunning s) \<Longrightarrow> timeLeft (run evs s) = 0 \<longrightarrow> \<not> isRunning (run evs s)"
proof (induction evs arbitrary: s)
  case Nil
  then show ?case by simp
next
  case (Cons e es)
  from Cons.IH [OF step_stopped [OF Cons.prems, of e]] show ?case by simp
qed

lemma run_upper:
  "timeLeft s \<le> 60 \<Longrightarrow> clock_ok lo s \<Longrightarrow> sorted (lo # timestamps evs) \<Longrightarrow>
   timeLeft (run evs s) \<le> 60"
proof (induction evs arbitrary: s lo)
  case Nil
  then show ?case by simp
next
  case (Cons e es)
  show ?case
  proof (cases e)
    case (Frame ts)
    from Cons.prems(3) Frame have le: "lo \<le> ts" and so: "sorted (ts # timestamps es)" by simp_all
    from step_upper_frame [OF Cons.prems(1,2) le]
    have "timeLeft (step e s) \<le> 60" "clock_ok ts (step e s)" using Frame by simp_all
    from Cons.IH [OF this so] show ?thesis by simp
  next
    case Toggle
    from Cons.prems(3) Toggle have so: "sorted (lo # timestamps es)" by simp
    from step_upper_click [OF Cons.prems(1,2), of e] Toggle
    have "timeLeft (step e s) \<le> 60" "clock_ok lo (step e s)" by simp_all
    from Cons.IH [OF this so] show ?thesis by simp
  next
    case Reset
    from Cons.prems(3) Reset have so: "sorted (lo # timestamps es)" by simp
    from step_upper_click [OF Cons.prems(1,2), of e] Reset
    have "timeLeft (step e s) \<le> 60" "clock_ok lo (step e s)" by simp_all
    from Cons.IH [OF this so] show ?thesis by simp
  qed
qed

text \<open>
  C8.  After any sequence of clicks and animation frames, \<open>timeLeft\<close> is not negative
  (however late a frame comes) and the timer is not running when \<open>timeLeft\<close> is
  \<open>0\<close>; when the timestamps of the frames never decrease, \<open>timeLeft\<close> is at most
  \<open>60\<close>.  \<open>timeLeft\<close> is an integer by its type.
\<close>

theorem timeLeft_invariant:
  "0 \<le> timeLeft (run evs init) \<and>
   (timeLeft (run evs init) = 0 \<longrightarrow> \<not> isRunning (run evs init)) \<and>
   (sorted (timestamps evs) \<longrightarrow> timeLeft (run evs init) \<le> 60)"
proof -
  have a: "0 \<le> timeLeft (run evs init)" by (rule run_nonneg) (simp add: init_def)
  have b: "timeLeft (run evs init) = 0 \<longrightarrow> \<not> isRunning (run evs init)"
    by (rule run_stopped) (simp add: init_def)
  have c: "timeLeft (run evs init) \<le> 60" if so: "sorted (timestamps evs)"
  proof -
    define lo where "lo = (case timestamps evs of [] \<Rightarrow> 0 | t # _ \<Rightarrow> t)"
    have "sorted (lo # timestamps evs)" using so by (auto simp: lo_def split: list.splits)
    moreover have "clock_ok lo init" by (simp add: clock_ok_def init_def)
    moreover have "timeLeft init \<le> 60" by (simp add: init_def)
    ultimately show ?thesis using run_upper by blast
  qed
  show ?thesis using a b c by blast
qed

theorem timeLeft_invariant_witness:
  "sorted (timestamps [Toggle, Frame 1000, Frame 200000]) \<and>
   timeLeft (run [Toggle, Frame 1000, Frame 200000] init) = 0 \<and>
   \<not> isRunning (run [Toggle, Frame 1000, Frame 200000] init) \<and>
   timeLeft (run [Toggle, Frame 1000, Frame 200000] init) \<le> 60"
proof -
  have s: "sorted (timestamps [Toggle, Frame 1000, Frame 200000])" by simp
  have z: "timeLeft (run [Toggle, Frame 1000, Frame 200000] init) = 0"
    by (simp add: init_def timer_defs Let_def)
  show ?thesis
    using timeLeft_invariant [of "[Toggle, Frame 1000, Frame 200000]"] s z by blast
qed

section \<open>Toggle after completion\<close>

lemma toggle_then_frame:
  assumes ok: "sched_ok s" and z: "timeLeft s = 0" and nr: "\<not> isRunning s"
  shows "timeLeft (step (Frame ts) (step Toggle s)) = 60 \<and>
         isRunning (step (Frame ts) (step Toggle s)) \<and>
         startTimeRef (step (Frame ts) (step Toggle s)) = Some ts"
proof -
  define t where "t = toggleTimer s"
  have tf: "timeLeft t = 60" "isRunning t" "startTimeRef t = None"
    using z nr by (simp_all add: t_def toggleTimer_fields)
  have okt: "sched_ok t" unfolding t_def by (rule sched_ok_toggleTimer [OF ok])
  have n: "nextHandle t \<noteq> 0" using okt by (simp add: sched_ok_def)
  define u where "u = effectBody (cancelCurrent t)"
  have st: "step Toggle s = u"
    using nr tf by (simp add: commit_def t_def [symmetric] u_def)
  have p: "pending u = [(nextHandle t, True)]"
    using tf sched_ok_cancelCurrent [OF okt]
    by (simp add: u_def effectBody_def requestAnimationFrame_def)
  have uf: "timeLeft u = 60" "isRunning u" "startTimeRef u = None"
    using tf by (simp_all add: u_def)
  have "step (Frame ts) u = commit u (updateTimer True ts (u\<lparr>pending := []\<rparr>))"
    using p by simp
  moreover have "timeLeft (updateTimer True ts (u\<lparr>pending := []\<rparr>)) = 60"
    using uf by (simp add: updateTimer_timeLeft)
  moreover have "isRunning (updateTimer True ts (u\<lparr>pending := []\<rparr>))"
    "startTimeRef (updateTimer True ts (u\<lparr>pending := []\<rparr>)) = Some ts"
    using uf by (simp_all add: updateTimer_def Let_def requestAnimationFrame_def)
  ultimately show ?thesis unfolding st by simp
qed

text \<open>
  C6.  When the run has completed (\<open>timeLeft = 0\<close>, not running), a click on the
  toggle button leaves \<open>timeLeft = 60\<close>, \<open>isRunning = true\<close> and no reference start
  instant; in a state of the component (\<open>sched_ok\<close> holds in all of them, see
  \<open>sched_ok_run\<close>) the next animation frame, at whatever timestamp, takes that
  timestamp as the reference and shows \<open>60\<close>: a fresh run.
\<close>

theorem toggle_after_completion:
  assumes "timeLeft s = 0" and "\<not> isRunning s"
  shows "timeLeft (step Toggle s) = 60 \<and> isRunning (step Toggle s) \<and>
         startTimeRef (step Toggle s) = None \<and>
         (sched_ok s \<longrightarrow>
            timeLeft (step (Frame ts) (step Toggle s)) = 60 \<and>
            isRunning (step (Frame ts) (step Toggle s)) \<and>
            startTimeRef (step (Frame ts) (step Toggle s)) = Some ts)"
  using assms toggle_then_frame [of s ts]
  by (simp add: toggleTimer_fields del: step.simps) (simp add: toggleTimer_fields)

theorem toggle_after_completion_witness:
  "timeLeft (run [Toggle, Frame 1000, Frame 61000] init) = 0 \<and>
   \<not> isRunning (run [Toggle, Frame 1000, Frame 61000] init) \<and>
   sched_ok (run [Toggle, Frame 1000, Frame 61000] init) \<and>
   timeLeft (step Toggle (run [Toggle, Frame 1000, Frame 61000] init)) = 60 \<and>
   isRunning (step Toggle (run [Toggle, Frame 1000, Frame 61000] init)) \<and>
   startTimeRef (step Toggle (run [Toggle, Frame 1000, Frame 61000] init)) = None \<and>
   timeLeft (step (Frame 75000) (step Toggle (run [Toggle, Frame 1000, Frame 61000] init))) = 60 \<and>
   startTimeRef (step (Frame 75000) (step Toggle (run [Toggle, Frame 1000, Frame 61000] init)))
     = Some 75000"
proof -
  define w where "w = run [Toggle, Frame 1000, Frame 61000] init"
  have z: "timeLeft w = 0" and nr: "\<not> isRunning w"
    by (simp_all add: w_def init_def timer_defs Let_def)
  have ok: "sched_ok w" unfolding w_def by (rule sched_ok_run [OF sched_ok_init])
  show ?thesis
    using toggle_after_completion [OF z nr, of 75000] z nr ok
    unfolding w_def [symmetric] by blast
qed

section \<open>What an animation step changes\<close>

lemma updateTimer_frame:
  "hasStarted (updateTimer c ts s) = hasStarted s"
  "circlePositions (updateTimer c ts s) = circlePositions s"
  "isClient (updateTimer c ts s) = isClient s"
  by (simp_all add: updateTimer_def Let_def requestAnimationFrame_def)

lemma step_Frame_frame:
  "hasStarted (step (Frame ts) s) = hasStarted s"
  "circlePositions (step (Frame ts) s) = circlePositions s"
  "isClient (step (Frame ts) s) = isClient s"
  by (simp_all add: updateTimer_frame split: list.splits)

text \<open>
  C10 (as amended).  An animation step leaves \<open>hasStarted\<close>, the dot layout
  \<open>circlePositions\<close> and \<open>isClient\<close> unchanged, both as the body of \<open>updateTimer\<close>
  and together with the effect re-run that follows it.  It may modify \<open>timeLeft\<close>,
  \<open>isRunning\<close> and the reference start instant, and in addition the handle in
  \<open>animationFrameRef\<close> with the host's frame queue and handle counter.
\<close>

theorem animation_step_frame:
  "hasStarted (updateTimer c ts s) = hasStarted s \<and>
   circlePositions (updateTimer c ts s) = circlePositions s \<and>
   isClient (updateTimer c ts s) = isClient s \<and>
   step (Frame ts) s =
     s\<lparr> timeLeft := timeLeft (step (Frame ts) s),
        isRunning := isRunning (step (Frame ts) s),
        startTimeRef := startTimeRef (step (Frame ts) s),
        animationFrameRef := animationFrameRef (step (Frame ts) s),
        pending := pending (step (Frame ts) s),
        nextHandle := nextHandle (step (Frame ts) s) \<rparr>"
proof -
  have "step (Frame ts) s =
     s\<lparr> timeLeft := timeLeft (step (Frame ts) s),
        isRunning := isRunning (step (Frame ts) s),
        startTimeRef := startTimeRef (step (Frame ts) s),
        animationFrameRef := animationFrameRef (step (Frame ts) s),
        pending := pending (step (Frame ts) s),
        nextHandle := nextHandle (step (Frame ts) s) \<rparr>"
    by (rule timer.equality) (simp_all add: step_Frame_frame del: step.simps)
  then show ?thesis by (simp only: updateTimer_frame)
qed

text \<open>
  C10 (as stated) fails: the first animation step after the first click replaces
  the handle stored in \<open>animationFrameRef\<close> (handle 1 by handle 2), which is none of
  \<open>timeLeft\<close>, \<open>isRunning\<close> and the reference start instant.
\<close>

theorem animation_step_changes_handle:
  "animationFrameRef (updateTimer True 1000 ((step Toggle init)\<lparr>pending := []\<rparr>))
     \<noteq> animationFrameRef (step Toggle init) \<and>
   animationFrameRef (step (Frame 1000) (step Toggle init))
     \<noteq> animationFrameRef (step Toggle init)"
  by (simp add: init_def timer_defs Let_def)

section \<open>Pause and resume\<close>

text \<open>
  C1.  The component is started, its first frame comes at 1000 ms and a frame at
  11000 ms shows \<open>timeLeft = 50\<close>.  A click pauses it: \<open>timeLeft\<close> stays \<open>50\<close> and the
  reference start instant is still 1000.  A second click resumes it, and the first
  frame after that, at 16000 ms, shows \<open>45\<close>: the five seconds spent paused are
  counted as elapsed.
\<close>

theorem pause_resume_trace:
  "timeLeft (run [Toggle, Frame 1000, Frame 11000] init) = 50 \<and>
   timeLeft (run [Toggle, Frame 1000, Frame 11000, Toggle] init) = 50 \<and>
   \<not> isRunning (run [Toggle, Frame 1000, Frame 11000, Toggle] init) \<and>
   startTimeRef (run [Toggle, Frame 1000, Frame 11000, Toggle] init) = Some 1000 \<and>
   isRunning (run [Toggle, Frame 1000, Frame 11000, Toggle, Toggle] init) \<and>
   timeLeft (run [Toggle, Frame 1000, Frame 11000, Toggle, Toggle] init) = 50 \<and>
   timeLeft (run [Toggle, Frame 1000, Frame 11000, Toggle, Toggle, Frame 16000] init) = 45"
  by (simp add: init_def timer_defs Let_def)

section \<open>Dots of one ring do not overlap\<close>

lemma chord_algebra:
  fixes R ca cb sa sb :: real
  assumes a: "ca * ca + sa * sa = 1" and b: "cb * cb + sb * sb = 1"
  shows "(R * ca - R * cb)\<^sup>2 + (R * sa - R * sb)\<^sup>2 = 2 * R\<^sup>2 * (1 - (ca * cb + sa * sb))"
proof -
  have "(R * ca - R * cb)\<^sup>2 + (R * sa - R * sb)\<^sup>2
      = R\<^sup>2 * (ca * ca + sa * sa) + R\<^sup>2 * (cb * cb + sb * sb)
        - 2 * R\<^sup>2 * (ca * cb + sa * sb)"
    by (simp add: power2_eq_square algebra_simps)
  also have "\<dots> = R\<^sup>2 * 1 + R\<^sup>2 * 1 - 2 * R\<^sup>2 * (ca * cb + sa * sb)"
    by (simp only: a b)
  also have "\<dots> = 2 * R\<^sup>2 * (1 - (ca * cb + sa * sb))"
    by (simp add: algebra_simps)
  finally show ?thesis .
qed

lemma chord_square:
  fixes R a b :: real
  shows "(R * cos a - R * cos b)\<^sup>2 + (R * sin a - R * sin b)\<^sup>2 = 2 * R\<^sup>2 * (1 - cos (a - b))"
proof -
  have a: "cos a * cos a + sin a * sin a = 1"
    using sin_cos_squared_add2 [of a] by (simp add: power2_eq_square)
  have b: "cos b * cos b + sin b * sin b = 1"
    using sin_cos_squared_add2 [of b] by (simp add: power2_eq_square)
  show ?thesis unfolding cos_diff by (rule chord_algebra [OF a b])
qed

lemma sin_lower_cubic:
  fixes x :: real
  assumes "0 \<le> x"
  shows "x - x ^ 3 / 6 - x ^ 4 / 24 \<le> sin x"
proof -
  have "{..<4::nat} = {0, 1, 2, 3}" by auto
  then have s: "(\<Sum>m<4. sin_coeff m * x ^ m) = x - x ^ 3 / 6"
    by (simp add: sin_coeff_def fact_numeral)
  have "\<bar>sin x - (\<Sum>m<4. sin_coeff m * x ^ m)\<bar> \<le> inverse (fact 4) * \<bar>x\<bar> ^ 4"
    by (rule Maclaurin_sin_bound)
  then have "\<bar>sin x - (x - x ^ 3 / 6)\<bar> \<le> x ^ 4 / 24"
    unfolding s by (simp add: eval_nat_numeral)
  then show ?thesis by linarith
qed

lemma sin_ge_half:
  fixes x :: real
  assumes "0 \<le> x" and "x \<le> 4 / 3"
  shows "x / 2 \<le> sin x"
proof -
  have x2: "x\<^sup>2 \<le> 16 / 9"
    using assms power_mono [of x "4/3" 2] by (simp add: power2_eq_square)
  have x3: "x ^ 3 \<le> 16 / 9 * x"
    using mult_right_mono [OF x2 assms(1)] by (simp add: power3_eq_cube power2_eq_square)
  have x4: "x ^ 4 \<le> 64 / 27 * x"
  proof -
    have "x ^ 4 = x ^ 3 * x" by (simp add: eval_nat_numeral)
    also have "\<dots> \<le> (16 / 9 * x) * x" by (rule mult_right_mono [OF x3 assms(1)])
    also have "\<dots> = 16 / 9 * x\<^sup>2" by (simp add: power2_eq_square)
    also have "\<dots> = (x * x) * (16 / 9)" by (simp add: power2_eq_square)
    also have "\<dots> \<le> (x * (4 / 3)) * (16 / 9)"
      using mult_left_mono [OF assms(2) assms(1)] by simp
    finally show ?thesis by simp
  qed
  have "x / 2 \<le> x - x ^ 3 / 6 - x ^ 4 / 24"
    using x3 x4 assms(1) by simp
  then show ?thesis using sin_lower_cubic [OF assms(1)] by linarith
qed

lemma sin_pi_over_n:
  assumes "2 \<le> n"
  shows "pi / real n / 2 \<le> sin (pi / real n)"
proof (cases "n = 2")
  case True
  then show ?thesis using pi_less_4 by simp
next
  case False
  then have n3: "3 \<le> real n" using assms by simp
  have "pi / real n \<le> 4 / 3"
  proof -
    have "pi / real n \<le> pi / 3" using n3 by (intro divide_left_mono) simp_all
    then show ?thesis using pi_less_4 by simp
  qed
  moreover have "0 \<le> pi / real n" by simp
  ultimately show ?thesis by (rule sin_ge_half [rotated])
qed

lemma cos_step_le:
  assumes k1: "1 \<le> k" and kn: "k < n"
  shows "cos (real k * (2 * pi / real n)) \<le> cos (2 * pi / real n)"
proof -
  define th where "th = 2 * pi / real n"
  have n2: "2 \<le> n" using assms by simp
  have npos: "0 < real n" using n2 by simp
  have th0: "0 < th" unfolding th_def using npos by simp
  have thpi: "th \<le> pi"
  proof -
    have "2 * pi \<le> pi * real n" using n2 by simp
    then show ?thesis unfolding th_def using npos by (simp add: field_simps)
  qed
  have nth: "real n * th = 2 * pi" unfolding th_def using npos by simp
  have lo: "th \<le> real k * th" using k1 th0 by simp
  have hi: "real k * th \<le> 2 * pi - th"
  proof -
    have "real k + 1 \<le> real n" using kn by simp
    then have "(real k + 1) * th \<le> real n * th" using th0 by (simp add: mult_right_mono)
    then show ?thesis using nth by (simp add: algebra_simps)
  qed
  show ?thesis
  proof (cases "real k * th \<le> pi")
    case True
    show ?thesis unfolding th_def [symmetric]
      by (rule cos_monotone_0_pi_le) (use th0 lo True in simp_all)
  next
    case False
    have "cos (real k * th) = cos (2 * pi - real k * th)"
      by (simp add: cos_diff)
    also have "\<dots> \<le> cos th"
      by (rule cos_monotone_0_pi_le) (use th0 hi False in simp_all)
    finally show ?thesis unfolding th_def .
  qed
qed

lemma ring_chord:
  fixes R d :: real
  assumes d: "0 < d" and R: "0 < R" and n: "real n \<le> pi * R / d"
    and i: "i < n" and j: "j < n" and ij: "i \<noteq> j"
  shows "d\<^sup>2 \<le> (R * cos (real i * (2 * pi / real n)) - R * cos (real j * (2 * pi / real n)))\<^sup>2
            + (R * sin (real i * (2 * pi / real n)) - R * sin (real j * (2 * pi / real n)))\<^sup>2"
proof -
  define th where "th = 2 * pi / real n"
  define k where "k = (if i < j then j - i else i - j)"
  have k1: "1 \<le> k" and kn: "k < n" using i j ij by (auto simp: k_def)
  have n2: "2 \<le> n" using k1 kn by simp
  have npos: "0 < real n" using n2 by simp
  have "cos (real i * th - real j * th) = cos (real k * th)"
  proof (cases "i < j")
    case True
    then have "real k * th = - (real i * th - real j * th)"
      by (simp add: k_def algebra_simps of_nat_diff)
    then show ?thesis by (simp only: cos_minus)
  next
    case False
    then have "real k * th = real i * th - real j * th"
      by (simp add: k_def algebra_simps of_nat_diff)
    then show ?thesis by simp
  qed
  also have "\<dots> \<le> cos th" unfolding th_def by (rule cos_step_le [OF k1 kn])
  also have "cos th = 1 - 2 * (sin (pi / real n))\<^sup>2"
    using cos_double_sin [of "pi / real n"] by (simp add: th_def)
  finally have c: "2 * (sin (pi / real n))\<^sup>2 \<le> 1 - cos (real i * th - real j * th)" by simp
  have s: "pi / real n / 2 \<le> sin (pi / real n)" by (rule sin_pi_over_n [OF n2])
  have "d * real n \<le> pi * R" using n d by (simp add: field_simps)
  then have "d \<le> pi * R / real n" using npos by (simp add: field_simps)
  also have "\<dots> = 2 * R * (pi / real n / 2)" by simp
  also have "\<dots> \<le> 2 * R * sin (pi / real n)"
    using s R by (intro mult_left_mono) simp_all
  finally have "d \<le> 2 * R * sin (pi / real n)" .
  then have "d\<^sup>2 \<le> (2 * R * sin (pi / real n))\<^sup>2"
    using d by (intro power_mono) simp_all
  also have "\<dots> = 2 * R\<^sup>2 * (2 * (sin (pi / real n))\<^sup>2)"
    by (simp add: power2_eq_square)
  also have "\<dots> \<le> 2 * R\<^sup>2 * (1 - cos (real i * th - real j * th))"
    using c by (intro mult_left_mono) simp_all
  also have "\<dots> = (R * cos (real i * th) - R * cos (real j * th))\<^sup>2
                  + (R * sin (real i * th) - R * sin (real j * th))\<^sup>2"
    by (rule chord_square [symmetric])
  finally show ?thesis unfolding th_def .
qed

lemma numCircles_le:
  assumes "1 \<le> N"
  shows "real (numCircles N r) \<le> pi * (real r * SPACING N) / CIRCLE_SIZE"
proof -
  have "0 \<le> 2 * pi * (real r * SPACING N) / (CIRCLE_SIZE * 2)"
    by (simp add: SPACING_def RADIUS_def CIRCLE_SIZE_def)
  then have "real (numCircles N r) \<le> 2 * pi * (real r * SPACING N) / (CIRCLE_SIZE * 2)"
    by (simp add: numCircles_def Let_def)
  then show ?thesis by (simp add: CIRCLE_SIZE_def)
qed

text \<open>
  C9.  For every ring count \<open>N \<ge> 1\<close> and every ring \<open>r\<close> from \<open>1\<close> to \<open>N\<close>, the ring
  holds \<open>numCircles N r = \<lfloor>circumference / (2 * CIRCLE_SIZE)\<rfloor>\<close> dots at equal angular
  steps on the circle of radius \<open>r * (RADIUS / N)\<close>, and the centres of any two
  different dots of the ring are at least one dot diameter (\<open>CIRCLE_SIZE\<close>) apart.
  Coordinates are real numbers here.
\<close>

theorem ring_dots_do_not_overlap:
  assumes "1 \<le> N" and "1 \<le> r" and "r \<le> N"
    and "i < numCircles N r" and "j < numCircles N r" and "i \<noteq> j"
  shows "length (ringCircles N r seq0) = numCircles N r \<and>
         CIRCLE_SIZE \<le> centerDistance (ringCircles N r seq0 ! i) (ringCircles N r seq0 ! j)"
proof -
  define R where "R = real r * SPACING N"
  have Rpos: "0 < R" using assms(1,2) by (simp add: R_def SPACING_def RADIUS_def)
  have d: "0 < CIRCLE_SIZE" by (simp add: CIRCLE_SIZE_def)
  have n: "real (numCircles N r) \<le> pi * R / CIRCLE_SIZE"
    unfolding R_def by (rule numCircles_le [OF assms(1)])
  have "CIRCLE_SIZE\<^sup>2 \<le> (x_coord (ringCircle N r seq0 i) - x_coord (ringCircle N r seq0 j))\<^sup>2
                      + (y_coord (ringCircle N r seq0 i) - y_coord (ringCircle N r seq0 j))\<^sup>2"
    using ring_chord [OF d Rpos n assms(4,5,6)]
    by (simp add: ringCircle_def Let_def R_def)
  then have "CIRCLE_SIZE \<le> centerDistance (ringCircle N r seq0 i) (ringCircle N r seq0 j)"
    unfolding centerDistance_def using d by (intro real_le_rsqrt) simp
  then show ?thesis using assms(4,5) by (simp add: ringCircles_def)
qed

lemma numCircles_5_5_ge: "24 \<le> numCircles 5 5"
proof -
  have "(24::real) \<le> 12 * pi" using pi_ge_two by simp
  then have "(24::int) \<le> \<lfloor>12 * pi\<rfloor>" by (simp add: le_floor_iff)
  then have "24 \<le> nat \<lfloor>12 * pi\<rfloor>" by linarith
  then show ?thesis
    by (simp add: numCircles_def SPACING_def RADIUS_def CIRCLE_SIZE_def Let_def)
qed

theorem ring_dots_do_not_overlap_witness:
  "(1::nat) \<le> 5 \<and> (0::nat) < numCircles 5 5 \<and> 1 < numCircles 5 5 \<and>
   CIRCLE_SIZE \<le> centerDistance (ringCircles 5 5 0 ! 0) (ringCircles 5 5 0 ! 1)"
proof -
  have a: "0 < numCircles 5 5" and b: "1 < numCircles 5 5"
    using numCircles_5_5_ge by simp_all
  show ?thesis
    using ring_dots_do_not_overlap [of 5 5 0 1 0, OF _ _ _ a b] a b by simp
qed

section \<open>The number of dots of the component's layout\<close>

lemma sin_quintic_bounds:
  fixes x :: real
  assumes "0 \<le> x"
  shows "x - x ^ 3 / 6 - x ^ 5 / 120 \<le> sin x" and "sin x \<le> x - x ^ 3 / 6 + x ^ 5 / 120"
proof -
  have "{..<5::nat} = {0, 1, 2, 3, 4}" by auto
  then have s: "(\<Sum>m<5. sin_coeff m * x ^ m) = x - x ^ 3 / 6"
    by (simp add: sin_coeff_def fact_numeral)
  have "\<bar>sin x - (\<Sum>m<5. sin_coeff m * x ^ m)\<bar> \<le> inverse (fact 5) * \<bar>x\<bar> ^ 5"
    by (rule Maclaurin_sin_bound)
  then have b: "\<bar>sin x - (x - x ^ 3 / 6)\<bar> \<le> x ^ 5 / 120"
    unfolding s using assms by (simp add: fact_numeral)
  show "x - x ^ 3 / 6 - x ^ 5 / 120 \<le> sin x" using b by linarith
  show "sin x \<le> x - x ^ 3 / 6 + x ^ 5 / 120" using b by linarith
qed

lemma cube_tangent:
  fixes x b :: real
  assumes "0 \<le> x" and "0 \<le> b"
  shows "3 * b\<^sup>2 * x - 2 * b ^ 3 \<le> x ^ 3"
proof -
  have "0 \<le> (x - b)\<^sup>2 * (x + 2 * b)" using assms by simp
  also have "\<dots> = x ^ 3 - (3 * b\<^sup>2 * x - 2 * b ^ 3)"
    by (simp add: power2_eq_square power3_eq_cube algebra_simps)
  finally show ?thesis by simp
qed

lemma pow5_le:
  fixes x c :: real
  assumes "0 \<le> x" and "x \<le> c"
  shows "x ^ 5 \<le> c ^ 4 * x"
proof -
  have "x ^ 4 \<le> c ^ 4" using assms by (intro power_mono) simp_all
  then have "x ^ 4 * x \<le> c ^ 4 * x" using assms(1) by (rule mult_right_mono)
  then show ?thesis by (simp add: eval_nat_numeral)
qed

lemma quintic_upper:
  fixes x y3 y5 A B :: real
  assumes "A \<le> y3" and "y5 \<le> B"
  shows "x - y3 / 6 + y5 / 120 \<le> x - A / 6 + B / 120"
  using assms by linarith

lemma quintic_lower:
  fixes x y3 y5 A B :: real
  assumes "y3 \<le> A" and "y5 \<le> B"
  shows "x - A / 6 - B / 120 \<le> x - y3 / 6 - y5 / 120"
  using assms by linarith

lemma pi_ge_25_8: "25 / 8 \<le> pi"
proof (rule ccontr)
  assume "\<not> 25 / 8 \<le> pi"
  then have lt: "pi / 6 < 25 / 48" by simp
  define x where "x = pi / 6"
  have x0: "0 \<le> x" by (simp add: x_def)
  have xb: "x \<le> 25 / 48" using lt by (simp add: x_def)
  have "1 / 2 = sin x" by (simp add: x_def sin_30)
  also have "\<dots> \<le> x - x ^ 3 / 6 + x ^ 5 / 120" by (rule sin_quintic_bounds(2) [OF x0])
  also have "\<dots> \<le> x - (3 * (25 / 48)\<^sup>2 * x - 2 * (25 / 48) ^ 3) / 6 + ((25 / 48) ^ 4 * x) / 120"
    by (rule quintic_upper [OF cube_tangent [OF x0] pow5_le [OF x0 xb]]) simp
  finally have "1 / 2 \<le> x - (3 * (25 / 48)\<^sup>2 * x - 2 * (25 / 48) ^ 3) / 6 + ((25 / 48) ^ 4 * x) / 120" .
  then show False using lt
    by (simp add: x_def power2_eq_square power3_eq_cube eval_nat_numeral) argo
qed

lemma cube_chord:
  fixes x a c :: real
  assumes "0 \<le> a" and "a \<le> x" and "x \<le> c"
  shows "x ^ 3 \<le> a ^ 3 + (x - a) * (c\<^sup>2 + c * a + a\<^sup>2)"
proof -
  have x0: "0 \<le> x" using assms by simp
  have "x\<^sup>2 \<le> c\<^sup>2" using x0 assms(3) by (intro power_mono) simp_all
  moreover have "x * a \<le> c * a" using assms(3,1) by (rule mult_right_mono)
  ultimately have "x\<^sup>2 + x * a + a\<^sup>2 \<le> c\<^sup>2 + c * a + a\<^sup>2" by simp
  then have "(x - a) * (x\<^sup>2 + x * a + a\<^sup>2) \<le> (x - a) * (c\<^sup>2 + c * a + a\<^sup>2)"
    using assms(2) by (intro mult_left_mono) simp_all
  moreover have "x ^ 3 = a ^ 3 + (x - a) * (x\<^sup>2 + x * a + a\<^sup>2)"
    by (simp add: power2_eq_square power3_eq_cube algebra_simps)
  ultimately show ?thesis by simp
qed

lemma pi_le_19_6: "pi < 19 / 6"
proof (rule ccontr)
  assume "\<not> pi < 19 / 6"
  then have ge: "19 / 36 \<le> pi / 6" by simp
  define x where "x = pi / 6"
  have xa: "19 / 36 \<le> x" using ge by (simp add: x_def)
  have xc: "x \<le> 2 / 3" using pi_less_4 by (simp add: x_def)
  have x0: "0 \<le> x" by (simp add: x_def)
  have "x - (( 19 / 36) ^ 3 + (x - 19 / 36) * ((2 / 3)\<^sup>2 + 2 / 3 * (19 / 36) + (19 / 36)\<^sup>2)) / 6
          - ((2 / 3) ^ 4 * x) / 120
        \<le> x - x ^ 3 / 6 - x ^ 5 / 120"
    by (rule quintic_lower [OF cube_chord [OF _ xa xc] pow5_le [OF x0 xc]]) simp
  also have "\<dots> \<le> sin x" by (rule sin_quintic_bounds(1) [OF x0])
  also have "\<dots> = 1 / 2" by (simp add: x_def sin_30)
  finally have "x - (( 19 / 36) ^ 3 + (x - 19 / 36) * ((2 / 3)\<^sup>2 + 2 / 3 * (19 / 36) + (19 / 36)\<^sup>2)) / 6
          - ((2 / 3) ^ 4 * x) / 120 \<le> 1 / 2" .
  then show False using xa
    by (simp add: power2_eq_square power3_eq_cube eval_nat_numeral algebra_simps) argo
qed

lemma floor_pi_times:
  fixes q :: real
  assumes "of_int k \<le> q * (25 / 8)" and "q * (19 / 6) \<le> of_int k + 1" and "0 < q"
  shows "\<lfloor>q * pi\<rfloor> = k"
proof (rule floor_unique)
  have "q * (25 / 8) \<le> q * pi" using pi_ge_25_8 assms(3) by simp
  then show "of_int k \<le> q * pi" using assms(1) by linarith
  have "q * pi < q * (19 / 6)" using pi_le_19_6 assms(3) by simp
  then show "q * pi < of_int k + 1" using assms(2) by linarith
qed

lemma numCircles_NUM_RINGS:
  "numCircles 5 5 = 37" "numCircles 5 4 = 30" "numCircles 5 3 = 22"
  "numCircles 5 2 = 15" "numCircles 5 1 = 7"
proof -
  have n: "numCircles 5 r = nat \<lfloor>(real r * 12 / 5) * pi\<rfloor>" for r
    by (simp add: numCircles_def SPACING_def RADIUS_def CIRCLE_SIZE_def Let_def algebra_simps)
  show "numCircles 5 5 = 37" unfolding n by (subst floor_pi_times [of 37]) simp_all
  show "numCircles 5 4 = 30" unfolding n by (subst floor_pi_times [of 30]) simp_all
  show "numCircles 5 3 = 22" unfolding n by (subst floor_pi_times [of 22]) simp_all
  show "numCircles 5 2 = 15" unfolding n by (subst floor_pi_times [of 15]) simp_all
  show "numCircles 5 1 = 7" unfolding n by (subst floor_pi_times [of 7]) simp_all
qed

section \<open>The generated layout\<close>

lemma generateRings_pos:
  "0 < r \<Longrightarrow> generateRings N r seq =
     ringCircles N r seq @ generateRings N (r - 1) (seq + numCircles N r)"
  by (cases r) simp_all

lemma length_ringCircles [simp]: "length (ringCircles N r seq) = numCircles N r"
  by (simp add: ringCircles_def)

lemma length_generateRings:
  "\<exists>k. length (generateRings N r seq) = Suc k"
proof (induction r arbitrary: seq)
  case 0
  then show ?case by simp
next
  case (Suc r)
  obtain k where "length (generateRings N r (seq + numCircles N (Suc r))) = Suc k"
    using Suc.IH by blast
  then have "length (generateRings N (Suc r) seq) = Suc (numCircles N (Suc r) + k)" by simp
  then show ?case by blast
qed

lemma numCircles_5_Suc_0: "numCircles 5 (Suc 0) = 7"
  using numCircles_NUM_RINGS(5) by simp

lemma generateRings_sequenceIndex:
  "i < length (generateRings N r seq) \<Longrightarrow> sequenceIndex (generateRings N r seq ! i) = seq + i"
proof (induction r arbitrary: seq i)
  case 0
  then show ?case by (simp add: centerCircle_def)
next
  case (Suc r)
  show ?case
  proof (cases "i < numCircles N (Suc r)")
    case True
    then show ?thesis by (simp add: nth_append ringCircles_def ringCircle_def Let_def)
  next
    case False
    then have "i - numCircles N (Suc r) < length (generateRings N r (seq + numCircles N (Suc r)))"
      using Suc.prems by simp
    from Suc.IH [OF this] show ?thesis using False by (simp add: nth_append)
  qed
qed

lemma generateRings_ring:
  "i < length (generateRings N r seq) \<Longrightarrow>
   (ring (generateRings N r seq ! i) = 0) = (Suc i = length (generateRings N r seq))"
proof (induction r arbitrary: seq i)
  case 0
  then show ?case by (simp add: centerCircle_def)
next
  case (Suc r)
  show ?case
  proof (cases "i < numCircles N (Suc r)")
    case True
    obtain k where "length (generateRings N r (seq + numCircles N (Suc r))) = Suc k"
      using length_generateRings by blast
    then show ?thesis using True
      by (simp add: nth_append ringCircles_def ringCircle_def Let_def)
  next
    case False
    then have "i - numCircles N (Suc r) < length (generateRings N r (seq + numCircles N (Suc r)))"
      using Suc.prems by simp
    from Suc.IH [OF this] show ?thesis using False by (auto simp: nth_append)
  qed
qed

lemma length_generateCirclePositions: "length generateCirclePositions = 112"
  by (simp add: generateCirclePositions_def NUM_RINGS_def generateRings_pos numCircles_NUM_RINGS
        numCircles_5_Suc_0)

lemma totalCircles_generateCirclePositions: "totalCircles generateCirclePositions = 111"
  by (simp add: totalCircles_def length_generateCirclePositions)

lemma generateCirclePositions_nth:
  assumes "i < 112"
  shows "sequenceIndex (generateCirclePositions ! i) = i"
    and "(ring (generateCirclePositions ! i) = 0) = (i = 111)"
proof -
  have l: "i < length (generateRings NUM_RINGS NUM_RINGS 0)"
    using assms length_generateCirclePositions by (simp add: generateCirclePositions_def)
  show "sequenceIndex (generateCirclePositions ! i) = i"
    using generateRings_sequenceIndex [OF l] by (simp add: generateCirclePositions_def)
  show "(ring (generateCirclePositions ! i) = 0) = (i = 111)"
    using generateRings_ring [OF l] length_generateCirclePositions
    by (auto simp: generateCirclePositions_def)
qed

section \<open>Colours\<close>

lemma activeCircleCount_div: "activeCircleCount tot t = - (- ((t - 1) * tot) div 59)"
proof -
  have "percentage t * of_int tot = of_int ((t - 1) * tot) / of_int 59"
    by (simp add: percentage_def)
  then show ?thesis unfolding activeCircleCount_def by (simp only: ceiling_divide_eq_div)
qed

lemma isActive_iff:
  "isActive started tot c t \<longleftrightarrow>
     (\<not> started \<or> (if ring c = 0 then t \<noteq> 0
                    else 1 < t \<and> int (sequenceIndex c) \<le> tot - activeCircleCount tot t))"
  by (auto simp: isActive_def getCircleColor_def)

lemma filter_prefix:
  "(\<And>i. i < length xs \<Longrightarrow> P (xs ! i) = (i < m)) \<Longrightarrow> filter P xs = take m xs"
proof (induction xs arbitrary: m)
  case Nil
  then show ?case by simp
next
  case (Cons x xs)
  show ?case
  proof (cases m)
    case 0
    then have "\<And>y. y \<in> set (x # xs) \<Longrightarrow> \<not> P y"
      using Cons.prems by (metis in_set_conv_nth less_nat_zero_code)
    then have "filter P (x # xs) = []" unfolding filter_empty_conv by blast
    then show ?thesis using 0 by simp
  next
    case (Suc k)
    have px: "P x" using Cons.prems [of 0] Suc by simp
    have "\<And>i. i < length xs \<Longrightarrow> P (xs ! i) = (i < k)"
      using Cons.prems [of "Suc _"] Suc by simp
    from Cons.IH [OF this] show ?thesis using px Suc by simp
  qed
qed

text \<open>What the colour function lights on a generated layout: the first dots in
  generation order, as many as the threshold of its last comparison admits.\<close>

lemma activeDots_generateRings:
  assumes "1 < t"
  shows "activeDots True (generateRings N N 0) t =
           take (nat (min (totalCircles (generateRings N N 0))
                          (totalCircles (generateRings N N 0)
                             - activeCircleCount (totalCircles (generateRings N N 0)) t + 1)))
                (generateRings N N 0)"
proof -
  define ps where "ps = generateRings N N 0"
  define T where "T = totalCircles ps"
  have T: "T = int (length ps) - 1" by (simp add: T_def totalCircles_def)
  have "filter (\<lambda>c. ring c \<noteq> 0 \<and> isActive True T c t) ps
        = take (nat (min T (T - activeCircleCount T t + 1))) ps"
  proof (rule filter_prefix)
    fix i assume i: "i < length ps"
    have s: "sequenceIndex (ps ! i) = i"
      using generateRings_sequenceIndex [of i N N 0] i by (simp add: ps_def)
    have r: "(ring (ps ! i) = 0) = (Suc i = length ps)"
      using generateRings_ring [of i N N 0] i by (simp add: ps_def)
    show "(ring (ps ! i) \<noteq> 0 \<and> isActive True T (ps ! i) t)
          = (i < nat (min T (T - activeCircleCount T t + 1)))"
      using assms i s r T by (auto simp: isActive_iff)
  qed
  then show ?thesis by (simp add: activeDots_def ps_def T_def)
qed

section \<open>Which dots are drawn active\<close>


lemma activeDots_generateCirclePositions:
  assumes "1 < t"
  shows "activeDots True generateCirclePositions t =
           take (nat (min 111 (111 - activeCircleCount 111 t + 1))) generateCirclePositions"
  using activeDots_generateRings [OF assms, of NUM_RINGS]
  by (simp only: generateCirclePositions_def [symmetric] totalCircles_generateCirclePositions)

text \<open>
  C5.  In the component's layout (111 non-centre dots) with \<open>hasStarted\<close> true and
  \<open>timeLeft = 60\<close>, \<open>activeCircleCount\<close> is 111, yet the second dot of the outer
  ring is drawn dark and the only non-centre dot drawn active is the first one.
  The centre dot is active at 60 and inactive at 0, and no non-centre dot is
  active at 0.
\<close>

theorem colours_at_start_and_end:
  "ring (generateCirclePositions ! 1) \<noteq> 0 \<and>
   activeCircleCount (totalCircles generateCirclePositions) 60 = 111 \<and>
   getCircleColor True (totalCircles generateCirclePositions) (generateCirclePositions ! 1) 60
     = ''#1e1e1e'' \<and>
   activeDots True generateCirclePositions 60 = take 1 generateCirclePositions \<and>
   ring (generateCirclePositions ! 111) = 0 \<and>
   isActive True (totalCircles generateCirclePositions) (generateCirclePositions ! 111) 60 \<and>
   \<not> isActive True (totalCircles generateCirclePositions) (generateCirclePositions ! 111) 0 \<and>
   activeDots True generateCirclePositions 0 = []"
proof -
  have r1: "ring (generateCirclePositions ! 1) \<noteq> 0"
    and s1: "sequenceIndex (generateCirclePositions ! 1) = 1"
    using generateCirclePositions_nth [of 1] by simp_all
  have rc: "ring (generateCirclePositions ! 111) = 0"
    using generateCirclePositions_nth(2) [of 111] by simp
  have ac: "activeCircleCount 111 60 = 111" by (simp add: activeCircleCount_div)
  have a60: "activeDots True generateCirclePositions 60 = take 1 generateCirclePositions"
    by (subst activeDots_generateCirclePositions) (simp_all add: ac)
  have a0: "activeDots True generateCirclePositions 0 = []"
    by (auto simp: activeDots_def filter_empty_conv isActive_iff)
  show ?thesis
    using r1 s1 rc ac a60 a0
    by (simp add: totalCircles_generateCirclePositions isActive_iff getCircleColor_def)
qed

text \<open>
  C2.  In the component's layout with \<open>hasStarted\<close> true, the dot with sequence
  index 50 (not the centre dot) is drawn dark at \<open>timeLeft = 59\<close> and active at
  the smaller \<open>timeLeft = 2\<close>.
\<close>

theorem dot_active_again_later:
  "ring (generateCirclePositions ! 50) \<noteq> 0 \<and>
   sequenceIndex (generateCirclePositions ! 50) = 50 \<and>
   \<not> isActive True (totalCircles generateCirclePositions) (generateCirclePositions ! 50) 59 \<and>
   isActive True (totalCircles generateCirclePositions) (generateCirclePositions ! 50) 2"
proof -
  have r: "ring (generateCirclePositions ! 50) \<noteq> 0"
    and s: "sequenceIndex (generateCirclePositions ! 50) = 50"
    using generateCirclePositions_nth [of 50] by simp_all
  show ?thesis using r s
    by (simp add: totalCircles_generateCirclePositions isActive_iff activeCircleCount_div)
qed

text \<open>
  C3.  In the component's layout (111 non-centre dots) with \<open>hasStarted\<close> true and
  \<open>timeLeft = 31\<close>, \<open>activeCircleCount\<close> is \<open>\<lceil>30/59 * 111\<rceil> = 57\<close>, but 55 non-centre
  dots are drawn active, and they are the first 55 in generation order (sequence
  indices 0 to 54).  With 100 non-centre dots \<open>activeCircleCount\<close> is 51; a dot with
  sequence index 49 is active and one with sequence index 50 is not.
\<close>

theorem active_count_at_31:
  "activeCircleCount (totalCircles generateCirclePositions) 31 = 57 \<and>
   length (activeDots True generateCirclePositions 31) = 55 \<and>
   activeDots True generateCirclePositions 31 = take 55 generateCirclePositions \<and>
   activeCircleCount 100 31 = 51 \<and>
   isActive True 100 (ringCircle 5 5 0 49) 31 \<and>
   \<not> isActive True 100 (ringCircle 5 5 0 50) 31"
proof -
  have ac: "activeCircleCount 111 31 = 57" by (simp add: activeCircleCount_div)
  have a: "activeDots True generateCirclePositions 31 = take 55 generateCirclePositions"
    by (subst activeDots_generateCirclePositions) (simp_all add: ac)
  have b: "activeCircleCount 100 31 = 51" by (simp add: activeCircleCount_div)
  show ?thesis using ac a b
    by (simp add: totalCircles_generateCirclePositions length_generateCirclePositions
          isActive_iff ringCircle_def Let_def)
qed


end
